theory Spec2Isabelle
  imports Main
begin

section \<open>A streaming CSV codec: \<^verbatim>\<open>custom_csv.py\<close> and \<^verbatim>\<open>custom_csv_writer.py\<close>\<close>

text \<open>
  Characters are modelled by \<^typ>\<open>char\<close> and Python strings by \<^typ>\<open>string\<close>.
  The delimiter and the quote character of a reader or writer are single characters
  (the documented use of both classes); the line terminator is a string.
  The two line-break characters the reader looks for are \<open>LF\<close> (\<^verbatim>\<open>"\n"\<close>) and
  \<open>CR\<close> (\<^verbatim>\<open>"\r"\<close>).
\<close>

abbreviation LF :: char where "LF \<equiv> CHR 0x0A"
abbreviation CR :: char where "CR \<equiv> CHR 0x0D"

subsection \<open>\<^verbatim>\<open>CustomCsvReader\<close>\<close>

text \<open>
  Both classes keep the attributes \<^verbatim>\<open>file\<close>, \<^verbatim>\<open>delimiter\<close> and \<^verbatim>\<open>quotechar\<close>;
  they are the fields of a common record, which each class extends with its own.

  For the reader, \<open>file\<close> is what the underlying text stream has not delivered yet:
  \<^verbatim>\<open>file.read(1)\<close> removes its first character, and returns \<^verbatim>\<open>""\<close> (here \<open>None\<close>)
  once it is empty. \<open>buffer\<close> is \<^verbatim>\<open>_buffer\<close>, the empty string (\<open>None\<close>) or one
  character; \<open>eof\<close> is \<^verbatim>\<open>_eof\<close>.
\<close>

record csv =
  "file" :: string
  delimiter :: char
  quotechar :: char

record reader = csv +
  buffer :: "char option"
  eof :: bool

text \<open>\<^verbatim>\<open>CustomCsvReader.__init__\<close>, and its default arguments.\<close>

definition reader_init :: "string \<Rightarrow> char \<Rightarrow> char \<Rightarrow> reader" where
  "reader_init file_obj d q =
     \<lparr>file = file_obj, delimiter = d, quotechar = q, buffer = None, eof = False\<rparr>"

definition reader_default :: "string \<Rightarrow> reader" where
  "reader_default file_obj = reader_init file_obj (CHR '','') (CHR ''\"'')"

text \<open>\<^verbatim>\<open>_read_char\<close>: the buffered character if there is one, else one character of the file.\<close>

definition read_char :: "reader \<Rightarrow> char option \<times> reader" where
  "read_char r =
     (case buffer r of
        Some ch \<Rightarrow> (Some ch, r\<lparr>buffer := None\<rparr>)
      | None \<Rightarrow>
          (case file r of
             [] \<Rightarrow> (None, r)
           | ch # rest \<Rightarrow> (Some ch, r\<lparr>file := rest\<rparr>)))"

text \<open>\<^verbatim>\<open>_unread_char\<close>: the argument may be the empty string, which empties the buffer.\<close>

definition unread_char :: "char option \<Rightarrow> reader \<Rightarrow> reader" where
  "unread_char ch r = r\<lparr>buffer := ch\<rparr>"

text \<open>
  The characters the reader will still see, in order: the pushed-back character, then the
  rest of the file.
\<close>

definition pending :: "reader \<Rightarrow> string" where
  "pending r = (case buffer r of None \<Rightarrow> file r | Some ch \<Rightarrow> ch # file r)"

text \<open>
  The \<^verbatim>\<open>while True\<close> loop of \<^verbatim>\<open>__next__\<close>, with its three local variables as
  arguments. The result is the returned row, or \<open>None\<close> for \<^verbatim>\<open>StopIteration\<close>, and
  the reader as the call leaves it.
\<close>

function next_loop :: "reader \<Rightarrow> string list \<Rightarrow> string \<Rightarrow> bool \<Rightarrow> string list option \<times> reader" where
  "next_loop r row field_chars in_quotes =
     (case read_char r of
        (None, r1) \<Rightarrow>
          (let r2 = r1\<lparr>eof := True\<rparr> in
           if field_chars \<noteq> [] \<or> row \<noteq> [] then (Some (row @ [field_chars]), r2)
           else (None, r2))
      | (Some ch, r1) \<Rightarrow>
          if ch = quotechar r1 then
            (if in_quotes then
               (case read_char r1 of
                  (next_ch, r2) \<Rightarrow>
                    if next_ch = Some (quotechar r2)
                    then next_loop r2 row (field_chars @ [quotechar r2]) in_quotes
                    else next_loop (unread_char next_ch r2) row field_chars False)
             else next_loop r1 row field_chars True)
          else if ch = delimiter r1 \<and> \<not> in_quotes then
            next_loop r1 (row @ [field_chars]) [] in_quotes
          else if (ch = LF \<or> ch = CR) \<and> \<not> in_quotes then
            (let r3 =
               (if ch = CR then
                  (case read_char r1 of
                     (next_ch, r2) \<Rightarrow>
                       if next_ch \<noteq> Some LF \<and> next_ch \<noteq> None
                       then unread_char next_ch r2 else r2)
                else r1)
             in (Some (row @ [field_chars]), r3))
          else next_loop r1 row (field_chars @ [ch]) in_quotes)"
  by pat_completeness auto
termination
proof (relation "measure (\<lambda>(r, row, field_chars, in_quotes). length (pending r))")
  show "wf (measure (\<lambda>(r, row, field_chars, in_quotes). length (pending r)))"
    by simp
qed (auto simp: read_char_def unread_char_def pending_def split: option.splits list.splits)

text \<open>\<^verbatim>\<open>__next__\<close>.\<close>

definition "next" :: "reader \<Rightarrow> string list option \<times> reader" where
  "next r = (if eof r then (None, r) else next_loop r [] [] False)"


subsection \<open>\<^verbatim>\<open>CustomCsvWriter\<close>\<close>

text \<open>
  For the writer, \<open>file\<close> is the text the sink holds: \<^verbatim>\<open>file.write(line)\<close> appends
  \<open>line\<close> to it. A value of a row is \<^verbatim>\<open>None\<close> or has a string form \<^verbatim>\<open>str(value)\<close>.
\<close>

record writer = csv +
  line_terminator :: string

datatype field_value = PyNone | PyStr string

text \<open>\<^verbatim>\<open>CustomCsvWriter.__init__\<close>, and its default arguments.\<close>

definition writer_init :: "string \<Rightarrow> char \<Rightarrow> char \<Rightarrow> string \<Rightarrow> writer" where
  "writer_init file_obj d q t =
     \<lparr>file = file_obj, delimiter = d, quotechar = q, line_terminator = t\<rparr>"

definition writer_default :: "string \<Rightarrow> writer" where
  "writer_default file_obj = writer_init file_obj (CHR '','') (CHR ''\"'') [LF]"

text \<open>
  \<^verbatim>\<open>text.replace(old, new)\<close> where \<open>old\<close> is one character: every occurrence, from left
  to right.
\<close>

fun replace_char :: "char \<Rightarrow> string \<Rightarrow> string \<Rightarrow> string" where
  "replace_char old new [] = []"
| "replace_char old new (c # cs) =
     (if c = old then new @ replace_char old new cs else c # replace_char old new cs)"

text \<open>\<^verbatim>\<open>sep.join(parts)\<close>.\<close>

fun join :: "string \<Rightarrow> string list \<Rightarrow> string" where
  "join sep [] = []"
| "join sep [p] = p"
| "join sep (p # ps) = p @ sep @ join sep ps"

text \<open>\<^verbatim>\<open>_quote_field\<close>.\<close>

definition quote_field :: "writer \<Rightarrow> field_value \<Rightarrow> string" where
  "quote_field w v =
     (let text = (case v of PyNone \<Rightarrow> [] | PyStr s \<Rightarrow> s);
          must_quote =
            (delimiter w \<in> set text \<or> quotechar w \<in> set text \<or> LF \<in> set text \<or> CR \<in> set text)
      in if must_quote then
           (let escaped = replace_char (quotechar w) (replicate 2 (quotechar w)) text
            in [quotechar w] @ escaped @ [quotechar w])
         else text)"

text \<open>\<^verbatim>\<open>writerow\<close> and \<^verbatim>\<open>writerows\<close>, and the two aliases.\<close>

definition writerow :: "writer \<Rightarrow> field_value list \<Rightarrow> writer" where
  "writerow w row =
     (let parts = map (quote_field w) row;
          line = join [delimiter w] parts @ line_terminator w
      in w\<lparr>file := file w @ line\<rparr>)"

fun writerows :: "writer \<Rightarrow> field_value list list \<Rightarrow> writer" where
  "writerows w [] = w"
| "writerows w (row # rows) = writerows (writerow w row) rows"



subsection \<open>The subclass of \<^verbatim>\<open>custom_csv_writer.py\<close>\<close>







text \<open>
  \<^verbatim>\<open>hasattr(self, name)\<close> for an instance of the subclass: the attributes set by
  \<^verbatim>\<open>__init__\<close> and the methods of the two classes.
\<close>

definition hasattr :: "string \<Rightarrow> bool" where
  "hasattr name =
     (name \<in> set [''file'', ''delimiter'', ''quotechar'', ''line_terminator'', ''__init__'',
        ''_quote_field'', ''writerow'', ''writerows'', ''write_row'', ''write_rows''])"


section \<open>The reader's loop, one character at a time\<close>

text \<open>
  What one turn of the loop does depends on the characters the reader will still see, on
  \<open>in_quotes\<close> and on the dialect only. \<open>at r s\<close> is the reader \<open>r\<close> with \<open>s\<close> left to
  see and nothing pushed back.
\<close>

declare next_loop.simps [simp del]

abbreviation at :: "reader \<Rightarrow> string \<Rightarrow> reader" where
  "at r s \<equiv> r\<lparr>file := s, buffer := None\<rparr>"

lemma pending_at [simp]: "pending (at r s) = s"
  by (simp add: pending_def)

lemma read_char_Nil: "pending r = [] \<Longrightarrow> read_char r = (None, r)"
  by (simp add: read_char_def pending_def split: option.splits list.splits)

lemma read_char_Cons: "pending r = c # cs \<Longrightarrow> read_char r = (Some c, at r cs)"
  by (cases r) (auto simp add: read_char_def pending_def split: option.splits list.splits)

lemma nl_eof:
  "pending r = [] \<Longrightarrow>
   next_loop r row fc inq =
     (if fc \<noteq> [] \<or> row \<noteq> [] then Some (row @ [fc]) else None, r\<lparr>eof := True\<rparr>)"
  by (subst next_loop.simps) (simp add: read_char_Nil)

lemma nl_norm: "next_loop r row fc inq = next_loop (at r (pending r)) row fc inq"
proof (cases "pending r")
  case Nil
  then have "at r (pending r) = r"
    by (cases r) (simp add: pending_def split: option.splits)
  then show ?thesis by simp
next
  case (Cons c cs)
  have "pending (at r (pending r)) = c # cs"
    using Cons by simp
  note rc = read_char_Cons[OF Cons] read_char_Cons[OF this]
  show ?thesis
    unfolding next_loop.simps[of r row fc inq] next_loop.simps[of "at r (pending r)" row fc inq]
    by (simp add: rc)
qed

lemma nl_open:
  "pending r = quotechar r # cs \<Longrightarrow>
   next_loop r row fc False = next_loop (at r cs) row fc True"
  by (subst next_loop.simps) (simp add: read_char_Cons)

lemma nl_escaped:
  "pending r = quotechar r # quotechar r # cs \<Longrightarrow>
   next_loop r row fc True = next_loop (at r cs) row (fc @ [quotechar r]) True"
  by (subst next_loop.simps) (simp add: read_char_Cons)

lemma nl_close:
  assumes "pending r = quotechar r # cs" and "cs = [] \<or> hd cs \<noteq> quotechar r"
  shows "next_loop r row fc True = next_loop (at r cs) row fc False"
proof (cases cs)
  case Nil
  with assms show ?thesis
    by (subst next_loop.simps) (simp add: read_char_Cons read_char_Nil unread_char_def)
next
  case (Cons c cs')
  with assms have "next_loop r row fc True = next_loop ((at r cs')\<lparr>buffer := Some c\<rparr>) row fc False"
    by (subst next_loop.simps) (simp add: read_char_Cons unread_char_def)
  also have "\<dots> = next_loop (at r cs) row fc False"
    by (subst nl_norm) (simp add: pending_def Cons)
  finally show ?thesis .
qed

lemma nl_delim:
  "pending r = delimiter r # cs \<Longrightarrow> delimiter r \<noteq> quotechar r \<Longrightarrow>
   next_loop r row fc False = next_loop (at r cs) (row @ [fc]) [] False"
  by (subst next_loop.simps) (simp add: read_char_Cons)

lemma nl_LF:
  "pending r = LF # cs \<Longrightarrow> quotechar r \<noteq> LF \<Longrightarrow> delimiter r \<noteq> LF \<Longrightarrow>
   next_loop r row fc False = (Some (row @ [fc]), at r cs)"
  by (subst next_loop.simps) (simp add: read_char_Cons)

lemma nl_CR:
  "pending r = CR # cs \<Longrightarrow> quotechar r \<noteq> CR \<Longrightarrow> delimiter r \<noteq> CR \<Longrightarrow>
   next_loop r row fc False =
     (Some (row @ [fc]),
      case cs of [] \<Rightarrow> at r []
      | c # cs' \<Rightarrow> if c = LF then at r cs' else (at r cs')\<lparr>buffer := Some c\<rparr>)"
  by (subst next_loop.simps)
     (auto simp add: read_char_Cons read_char_Nil unread_char_def split: list.splits)

lemma nl_char:
  "pending r = c # cs \<Longrightarrow> c \<noteq> quotechar r \<Longrightarrow>
   inq \<or> (c \<noteq> delimiter r \<and> c \<noteq> LF \<and> c \<noteq> CR) \<Longrightarrow>
   next_loop r row fc inq = next_loop (at r cs) row (fc @ [c]) inq"
  by (subst next_loop.simps) (auto simp add: read_char_Cons)


lemma next_loop_cases [case_names at_eof quote_open quote_escaped quote_close delim lf cr other]:
  assumes "\<And>r row fc inq. pending r = [] \<Longrightarrow> P r row fc inq"
    and "\<And>r row fc cs. pending r = quotechar r # cs \<Longrightarrow> P (at r cs) row fc True \<Longrightarrow> P r row fc False"
    and "\<And>r row fc cs. pending r = quotechar r # quotechar r # cs \<Longrightarrow>
           P (at r cs) row (fc @ [quotechar r]) True \<Longrightarrow> P r row fc True"
    and "\<And>r row fc cs. pending r = quotechar r # cs \<Longrightarrow> cs = [] \<or> hd cs \<noteq> quotechar r \<Longrightarrow>
           P (at r cs) row fc False \<Longrightarrow> P r row fc True"
    and "\<And>r row fc cs. pending r = delimiter r # cs \<Longrightarrow> delimiter r \<noteq> quotechar r \<Longrightarrow>
           P (at r cs) (row @ [fc]) [] False \<Longrightarrow> P r row fc False"
    and "\<And>r row fc cs. pending r = LF # cs \<Longrightarrow> quotechar r \<noteq> LF \<Longrightarrow> delimiter r \<noteq> LF \<Longrightarrow>
           P r row fc False"
    and "\<And>r row fc cs. pending r = CR # cs \<Longrightarrow> quotechar r \<noteq> CR \<Longrightarrow> delimiter r \<noteq> CR \<Longrightarrow>
           P r row fc False"
    and "\<And>r row fc inq c cs. pending r = c # cs \<Longrightarrow> c \<noteq> quotechar r \<Longrightarrow>
           inq \<or> (c \<noteq> delimiter r \<and> c \<noteq> LF \<and> c \<noteq> CR) \<Longrightarrow>
           P (at r cs) row (fc @ [c]) inq \<Longrightarrow> P r row fc inq"
  shows "P r row fc inq"
proof -
  have "\<forall>r row fc inq. length (pending r) = n \<longrightarrow> P r row fc inq" for n
  proof (induction n rule: less_induct)
  case (less n)
  show ?case
  proof (intro allI impI)
  fix r row fc inq
  assume len: "length (pending r) = n"
  show "P r row fc inq"
  proof (cases "pending r")
    case Nil
    then show ?thesis by (rule assms(1))
  next
    case (Cons c cs)
    have IH: "P (at r cs') row' fc' inq'" if "length cs' < length (pending r)" for cs' row' fc' inq'
      using less[of "length cs'"] len that by simp
    show ?thesis
    proof (cases "c = quotechar r")
      case q: True
      show ?thesis
      proof (cases "\<not> inq")
        case True
        with q Cons IH[of cs] show ?thesis by (auto intro: assms(2))
      next
        case False
        then have \<open>inq\<close> by simp
        show ?thesis
        proof (cases "cs = [] \<or> hd cs \<noteq> quotechar r")
          case True
          with q Cons IH[of cs] \<open>inq\<close> show ?thesis by (auto intro: assms(4))
        next
          case False
          then obtain cs' where "cs = quotechar r # cs'" by (cases cs) auto
          with q Cons IH[of cs'] \<open>inq\<close> show ?thesis by (auto intro: assms(3))
        qed
      qed
    next
      case nq: False
      show ?thesis
      proof (cases "inq \<or> (c \<noteq> delimiter r \<and> c \<noteq> LF \<and> c \<noteq> CR)")
        case True
        with nq Cons IH[of cs] show ?thesis by (auto intro: assms(8))
      next
        case False
        then have "\<not> inq" and c: "c = delimiter r \<or> c = LF \<or> c = CR" by auto
        show ?thesis
        proof (cases "c = delimiter r")
          case True
          with nq Cons IH[of cs] \<open>\<not> inq\<close> show ?thesis by (auto intro: assms(5))
        next
          case False
          with c nq Cons \<open>\<not> inq\<close> show ?thesis by (auto intro: assms(6,7))
        qed
      qed
    qed
  qed
  qed
  qed
  then show ?thesis by simp
qed

lemma pending_eof [simp]: "pending (r\<lparr>eof := b\<rparr>) = pending r"
  by (simp add: pending_def split: option.splits)

lemma next_loop_progress:
  "next_loop r row fc inq = (res, r') \<Longrightarrow>
   length (pending r') \<le> length (pending r) \<and> (eof r' \<or> length (pending r') < length (pending r))"
proof (induction r row fc inq rule: next_loop_cases)
  case (cr r row fc cs)
  then show ?case by (auto simp: nl_CR pending_def split: list.splits if_splits)
qed (auto simp: nl_eof nl_open nl_escaped nl_close nl_delim nl_LF nl_char)


subsection \<open>Iterating the reader\<close>

text \<open>
  \<^verbatim>\<open>for row in reader\<close> (and \<^verbatim>\<open>list(reader)\<close>): \<^verbatim>\<open>__next__\<close> is called until it raises
  \<^verbatim>\<open>StopIteration\<close>. Every call that returns a row has consumed a character or set
  \<open>eof\<close>, so the iteration ends.
\<close>

function read_rows :: "reader \<Rightarrow> string list list" where
  "read_rows r =
     (case next r of
        (None, r') \<Rightarrow> []
      | (Some row, r') \<Rightarrow> row # read_rows r')"
  by pat_completeness auto
termination
proof (relation "measure (\<lambda>r. length (pending r) + (if eof r then 0 else 1))")
  show "wf (measure (\<lambda>r. length (pending r) + (if eof r then 0 else 1)))"
    by simp
next
  fix r :: reader and x row r'
  assume nx: "(x, r') = next r" and x: "x = Some row"
  then have "\<not> eof r" and "next_loop r [] [] False = (Some row, r')"
    by (auto simp: next_def split: if_splits)
  from next_loop_progress[OF this(2)] \<open>\<not> eof r\<close>
  show "(r', r) \<in> measure (\<lambda>r. length (pending r) + (if eof r then 0 else 1))"
    by auto
qed

declare read_rows.simps [simp del]

subsection \<open>The streams the claims speak about\<close>

text \<open>
  \<open>line_break d q t\<close>: with delimiter \<open>d\<close> and quote character \<open>q\<close>, the reader takes the
  line terminator \<open>t\<close> for one row break, whatever follows it in the writer's output.
\<close>

definition line_break :: "char \<Rightarrow> char \<Rightarrow> string \<Rightarrow> bool" where
  "line_break d q t =
     (t = [LF] \<and> d \<noteq> LF \<and> q \<noteq> LF \<or>
      t = [CR] \<and> d \<noteq> LF \<and> d \<noteq> CR \<and> q \<noteq> LF \<and> q \<noteq> CR \<or>
      t = [CR, LF] \<and> d \<noteq> CR \<and> q \<noteq> CR)"

text \<open>
  \<open>row_text q False l\<close>: \<open>l\<close> is the raw text of one row, without its line ending. Every
  quoted section in it is closed, and no line break stands outside a quoted section.
\<close>

fun row_text :: "char \<Rightarrow> bool \<Rightarrow> string \<Rightarrow> bool" where
  "row_text q in_quotes [] = (\<not> in_quotes)"
| "row_text q in_quotes (c # cs) =
     (if c = q then row_text q (\<not> in_quotes) cs
      else if (c = LF \<or> c = CR) \<and> \<not> in_quotes then False
      else row_text q in_quotes cs)"


subsection \<open>What the loop returns\<close>

lemma next_loop_result:
  "next_loop r row fc inq = (res, r') \<Longrightarrow>
   (case res of Some x \<Rightarrow> x \<noteq> [] | None \<Rightarrow> eof r' \<and> row = [])"
proof (induction r row fc inq rule: next_loop_cases)
  case (cr r row fc cs)
  then show ?case by (auto simp: nl_CR)
qed (auto simp: nl_eof nl_open nl_escaped nl_close nl_delim nl_LF nl_char split: option.splits if_splits)

lemma next_Some_nonempty: "next r = (Some row, r') \<Longrightarrow> row \<noteq> []"
  using next_loop_result[of r "[]" "[]" False "Some row" r']
  by (simp add: next_def split: if_splits)

lemma next_None_eof: "next r = (None, r') \<Longrightarrow> eof r'"
  using next_loop_result[of r "[]" "[]" False None r']
  by (auto simp add: next_def split: if_splits)

lemma read_rows_nonempty: "row \<in> set (read_rows r) \<Longrightarrow> row \<noteq> []"
proof (induction r rule: read_rows.induct)
  case (1 r)
  obtain res r' where nx: "next r = (res, r')" by (cases "next r")
  show ?case
  proof (cases res)
    case None
    with nx "1.prems" show ?thesis by (simp add: read_rows.simps[of r])
  next
    case (Some x)
    with nx "1.prems" have "row = x \<or> row \<in> set (read_rows r')"
      by (simp add: read_rows.simps[of r])
    then show ?thesis
      using next_Some_nonempty[of r x r'] "1.IH" nx Some by auto
  qed
qed

lemma at_pending_Nil: "pending r = [] \<Longrightarrow> r\<lparr>file := [], buffer := None\<rparr> = r"
  by (cases r) (simp add: pending_def split: option.splits)

lemma nl_quoted_tail:
  "pending r = replace_char (quotechar r) [quotechar r, quotechar r] t \<Longrightarrow>
   next_loop r row fc True =
     (if fc @ t \<noteq> [] \<or> row \<noteq> [] then Some (row @ [fc @ t]) else None,
      r\<lparr>file := [], buffer := None, eof := True\<rparr>)"
proof (induction t arbitrary: r fc)
  case Nil
  then have "pending r = []" by simp
  then show ?case using at_pending_Nil[of r] by (simp add: nl_eof)
next
  case (Cons c t)
  show ?case
  proof (cases "c = quotechar r")
    case True
    with Cons.prems have p: "pending r = quotechar r # quotechar r #
        replace_char (quotechar r) [quotechar r, quotechar r] t" by simp
    show ?thesis
      using Cons.IH[of "at r (replace_char (quotechar r) [quotechar r, quotechar r] t)" "fc @ [quotechar r]"]
      by (simp add: nl_escaped[OF p] True)
  next
    case False
    with Cons.prems have p: "pending r = c # replace_char (quotechar r) [quotechar r, quotechar r] t"
      by simp
    show ?thesis
      using Cons.IH[of "at r (replace_char (quotechar r) [quotechar r, quotechar r] t)" "fc @ [c]"] False
      by (simp add: nl_char[OF p])
  qed
qed

section \<open>The reader\<close>

text \<open>
  Claim C4. Inside a quoted section, a quote character followed at once by another quote
  character appends one quote character to the field and leaves the reader inside the
  section. The raw field \<^verbatim>\<open>"He said ""hi"""\<close> parses to \<^verbatim>\<open>He said "hi"\<close>.
\<close>

theorem escaped_quote:
  "(pending r = quotechar r # quotechar r # cs \<longrightarrow>
      next_loop r row fc True =
        next_loop (r\<lparr>file := cs, buffer := None\<rparr>) row (fc @ [quotechar r]) True) \<and>
   read_rows (reader_default ''\"He said \"\"hi\"\"\"'') = [[''He said \"hi\"'']]"
proof -
  have "read_rows (reader_default ''\"He said \"\"hi\"\"\"'') = [[''He said \"hi\"'']]"
    by code_simp
  then show ?thesis by (simp add: nl_escaped)
qed

theorem escaped_quote_witness:
  "pending (reader_default ''\"\"x'') =
     quotechar (reader_default ''\"\"x'') # quotechar (reader_default ''\"\"x'') # ''x'' \<and>
   next_loop (reader_default ''\"\"x'') [] ''a'' True = next_loop (reader_default ''x'') [] ''a\"'' True"
  using escaped_quote[of "reader_default ''\"\"x''" "''x''" "[]" "''a''"]
  by (simp add: reader_default_def reader_init_def pending_def)

text \<open>
  Claim C8. Every row the reader returns has at least one field, from one call of
  \<^verbatim>\<open>__next__\<close> or over a whole iteration; on an empty stream the first call raises
  \<^verbatim>\<open>StopIteration\<close> and the iteration yields no row.
\<close>

theorem rows_have_a_field:
  "(\<forall>row r'. next r = (Some row, r') \<longrightarrow> row \<noteq> []) \<and>
   (\<forall>row \<in> set (read_rows r). row \<noteq> []) \<and>
   next (reader_init [] d q) = (None, (reader_init [] d q)\<lparr>eof := True\<rparr>) \<and>
   read_rows (reader_init [] d q) = []"
proof -
  have e: "next (reader_init [] d q) = (None, (reader_init [] d q)\<lparr>eof := True\<rparr>)"
    by (simp add: next_def reader_init_def nl_eof pending_def)
  then have "read_rows (reader_init [] d q) = []"
    by (simp add: read_rows.simps[of "reader_init [] d q"])
  with e show ?thesis
    using next_Some_nonempty read_rows_nonempty by blast
qed

theorem rows_have_a_field_witness:
  "next (reader_default ''a,b'') = (Some [''a'', ''b''], (reader_default [])\<lparr>eof := True\<rparr>) \<and>
   [''a'', ''b''] \<in> set (read_rows (reader_default ''a,b'')) \<and>
   [''a'', ''b''] \<noteq> ([] :: string list)"
proof -
  have 1: "next (reader_default ''a,b'') = (Some [''a'', ''b''], (reader_default [])\<lparr>eof := True\<rparr>)"
    by code_simp
  have 2: "read_rows (reader_default ''a,b'') = [[''a'', ''b'']]"
    by code_simp
  show ?thesis
    using rows_have_a_field[of "reader_default ''a,b''"] 1 2 by simp
qed

text \<open>
  Claim C9. When \<^verbatim>\<open>__next__\<close> has raised \<^verbatim>\<open>StopIteration\<close>, \<open>eof\<close> is set, and every
  later call raises it again and leaves the reader as it is: nothing is read, whatever
  the stream \<open>s\<close> would still deliver.
\<close>

theorem exhausted_stays_exhausted:
  "next r = (None, r') \<Longrightarrow>
   eof r' \<and> next r' = (None, r') \<and> next (r'\<lparr>file := s\<rparr>) = (None, r'\<lparr>file := s\<rparr>)"
  using next_None_eof[of r r'] by (simp add: next_def)

theorem exhausted_stays_exhausted_witness:
  "next (reader_default []) = (None, (reader_default [])\<lparr>eof := True\<rparr>) \<and>
   eof ((reader_default [])\<lparr>eof := True\<rparr>) \<and>
   next ((reader_default [])\<lparr>eof := True, file := ''x,y''\<rparr>) =
     (None, (reader_default [])\<lparr>eof := True, file := ''x,y''\<rparr>)"
proof -
  have 1: "next (reader_default []) = (None, (reader_default [])\<lparr>eof := True\<rparr>)"
    by code_simp
  show ?thesis
    using exhausted_stays_exhausted[OF 1, of "''x,y''"] 1 by simp
qed

text \<open>
  Claim C6, as stated: a stream that ends inside an open quoted section gives the
  accumulated content as the last field of the last row. It fails where nothing has been
  accumulated: the stream \<^verbatim>\<open>"\<close> gives no row at all, and after \<^verbatim>\<open>a\n"\<close> the last row
  is the row \<^verbatim>\<open>a\<close>.
\<close>

theorem unterminated_quote_counterexample:
  "next (reader_default ''\"'') = (None, (reader_default [])\<lparr>eof := True\<rparr>) \<and>
   read_rows (reader_default ''\"'') = [] \<and>
   read_rows (reader_default ''a\<newline>\"'') = [[''a'']]"
  by code_simp

text \<open>
  Claim C6, amended. Let the stream end inside an open quoted section: what is left to
  read is the escaped form of a text \<open>t\<close> (quote characters doubled, no closing quote).
  No error is raised. If the field accumulator with \<open>t\<close> is not empty, or the row has a
  field already, the reader returns the row with the accumulated content as its last
  field; else it raises \<^verbatim>\<open>StopIteration\<close>. In both cases \<open>eof\<close> is set. The stream
  \<^verbatim>\<open>"abc\<close> gives the one row with the one field \<^verbatim>\<open>abc\<close>.
\<close>

theorem unterminated_quote:
  "(pending r = replace_char (quotechar r) [quotechar r, quotechar r] t \<longrightarrow>
    next_loop r row fc True =
     (if fc @ t \<noteq> [] \<or> row \<noteq> [] then Some (row @ [fc @ t]) else None,
      r\<lparr>file := [], buffer := None, eof := True\<rparr>)) \<and>
   read_rows (reader_default ''\"abc'') = [[''abc'']]"
proof -
  have "read_rows (reader_default ''\"abc'') = [[''abc'']]"
    by code_simp
  then show ?thesis using nl_quoted_tail[of r t row fc] by simp
qed

theorem unterminated_quote_witness:
  "pending (reader_default ''a,\"\"b'') =
     replace_char (quotechar (reader_default ''a,\"\"b'')) 
       [quotechar (reader_default ''a,\"\"b''), quotechar (reader_default ''a,\"\"b'')] ''a,\"b'' \<and>
   next_loop (reader_default ''a,\"\"b'') [] [] True =
     (Some [''a,\"b''], (reader_default [])\<lparr>eof := True\<rparr>)"
  using unterminated_quote[of "reader_default ''a,\"\"b''" "''a,\"b''" "[]" "[]"]
  by (simp add: reader_default_def reader_init_def pending_def)

text \<open>
  Claim C2, as stated: a quote character read after other content of an unquoted field
  does not start a quoted section. It fails: in \<^verbatim>\<open>ab"c,d"e\<close> the quote character after
  \<^verbatim>\<open>ab\<close> starts a quoted section, the delimiter in it is content, and the stream is the
  one field \<^verbatim>\<open>abc,de\<close>. The loop does not go on as it would outside quotes, with the
  quote character dropped or kept.
\<close>

theorem quote_mid_field_counterexample:
  "read_rows (reader_default ''ab\"c,d\"e'') = [[''abc,de'']] \<and>
   next_loop (reader_default ''\"c,d\"e'') [] ''ab'' False \<noteq>
     next_loop (reader_default ''c,d\"e'') [] ''ab'' False \<and>
   next_loop (reader_default ''\"c,d\"e'') [] ''ab'' False \<noteq>
     next_loop (reader_default ''c,d\"e'') [] ''ab\"'' False"
  by code_simp

text \<open>
  Claim C2, amended. Outside a quoted section the reader starts a quoted section exactly
  when the character it pulls is the quote character, whatever the field accumulator
  \<open>fc\<close> holds, and does not append that character: after the quote character the loop
  goes on with \<open>in_quotes\<close> set and \<open>fc\<close> as it was, and after any other character it
  returns the row or goes on outside quotes. So a field whose first raw character is the
  quote character is quoted, and a quoted section can also start after other content.
\<close>

theorem quote_opens_section:
  "pending r = c # cs \<Longrightarrow>
   next_loop r row fc False =
     (if c = quotechar r then next_loop (r\<lparr>file := cs, buffer := None\<rparr>) row fc True
      else if c = delimiter r then next_loop (r\<lparr>file := cs, buffer := None\<rparr>) (row @ [fc]) [] False
      else if c = LF then (Some (row @ [fc]), r\<lparr>file := cs, buffer := None\<rparr>)
      else if c = CR then
        (Some (row @ [fc]),
         case cs of [] \<Rightarrow> r\<lparr>file := [], buffer := None\<rparr>
         | c' # cs' \<Rightarrow> if c' = LF then r\<lparr>file := cs', buffer := None\<rparr>
                        else r\<lparr>file := cs', buffer := Some c'\<rparr>)
      else next_loop (r\<lparr>file := cs, buffer := None\<rparr>) row (fc @ [c]) False)"
proof -
  assume p: "pending r = c # cs"
  consider (q) "c = quotechar r" | (d) "c \<noteq> quotechar r" "c = delimiter r"
    | (lf) "c \<noteq> quotechar r" "c \<noteq> delimiter r" "c = LF"
    | (cr) "c \<noteq> quotechar r" "c \<noteq> delimiter r" "c = CR"
    | (other) "c \<noteq> quotechar r" "c \<noteq> delimiter r" "c \<noteq> LF" "c \<noteq> CR"
    by blast
  then show ?thesis
  proof cases
    case q
    with p show ?thesis by (simp add: nl_open)
  next
    case d
    with p show ?thesis using nl_delim[of r cs row fc] by simp
  next
    case lf
    with p show ?thesis using nl_LF[of r cs row fc] by simp
  next
    case cr
    with p show ?thesis using nl_CR[of r cs row fc] by (simp split: list.splits)
  next
    case other
    with p show ?thesis using nl_char[of r c cs False row fc] by simp
  qed
qed

theorem quote_opens_section_witness:
  "pending (reader_default ''\"c,d\"e'') = CHR ''\"'' # ''c,d\"e'' \<and>
   next_loop (reader_default ''\"c,d\"e'') [] ''ab'' False =
     next_loop (reader_default ''c,d\"e'') [] ''ab'' True"
  using quote_opens_section[of "reader_default ''\"c,d\"e''" "CHR ''\"''" "''c,d\"e''" "[]" "''ab''"]
  by (simp add: reader_default_def reader_init_def pending_def)


section \<open>The writer\<close>

lemma replace_char_concat:
  "replace_char old new s = concat (map (\<lambda>c. if c = old then new else [c]) s)"
  by (induction s) simp_all

text \<open>
  Claim C3. The writer wraps a field in quote characters exactly when its string form
  contains the delimiter, the quote character, a line feed or a carriage return; every
  quote character of a wrapped field is doubled; any other field is emitted as it is
  (\<^verbatim>\<open>None\<close> as the empty string). With the default dialect, \<^verbatim>\<open>plain\<close> gives
  \<^verbatim>\<open>plain\<close>, \<^verbatim>\<open>a,b\<close> gives \<^verbatim>\<open>"a,b"\<close> and \<^verbatim>\<open>a"b\<close> gives \<^verbatim>\<open>"a""b"\<close>.
\<close>

theorem quote_field_policy:
  "quote_field w PyNone = [] \<and>
   quote_field w (PyStr s) =
     (if delimiter w \<in> set s \<or> quotechar w \<in> set s \<or> LF \<in> set s \<or> CR \<in> set s
      then [quotechar w] @ concat (map (\<lambda>c. if c = quotechar w then [quotechar w, quotechar w] else [c]) s) @ [quotechar w]
      else s) \<and>
   quote_field (writer_default out) (PyStr ''plain'') = ''plain'' \<and>
   quote_field (writer_default out) (PyStr ''a,b'') = ''\"a,b\"'' \<and>
   quote_field (writer_default out) (PyStr ''a\"b'') = ''\"a\"\"b\"''"
proof -
  have "replicate 2 c = [c, c]" for c :: char
    by (simp add: numeral_2_eq_2)
  then have "quote_field w (PyStr s) =
     (if delimiter w \<in> set s \<or> quotechar w \<in> set s \<or> LF \<in> set s \<or> CR \<in> set s
      then [quotechar w] @ concat (map (\<lambda>c. if c = quotechar w then [quotechar w, quotechar w] else [c]) s) @ [quotechar w]
      else s)"
    by (simp add: quote_field_def Let_def replace_char_concat)
  moreover have "quote_field w PyNone = []"
    by (simp add: quote_field_def)
  moreover have "quote_field (writer_default out) (PyStr ''plain'') = ''plain''"
    by (simp add: quote_field_def writer_default_def writer_init_def)
  moreover have "quote_field (writer_default out) (PyStr ''a,b'') = ''\"a,b\"''"
    by (simp add: quote_field_def writer_default_def writer_init_def numeral_2_eq_2)
  moreover have "quote_field (writer_default out) (PyStr ''a\"b'') = ''\"a\"\"b\"''"
    by (simp add: quote_field_def writer_default_def writer_init_def numeral_2_eq_2)
  ultimately show ?thesis by blast
qed

lemma writerow_file:
  "file (writerow w row) = file w @ join [delimiter w] (map (quote_field w) row) @ line_terminator w"
  by (simp add: writerow_def)

lemma writerow_dialect [simp]:
  "delimiter (writerow w row) = delimiter w"
  "quotechar (writerow w row) = quotechar w"
  "line_terminator (writerow w row) = line_terminator w"
  by (simp_all add: writerow_def)

lemma quote_field_writerow_value: "quote_field (writerow w row) v = quote_field w v"
  by (cases v) (simp_all add: quote_field_def Let_def)

lemma quote_field_writerow [simp]: "quote_field (writerow w row) = quote_field w"
  by (rule ext) (rule quote_field_writerow_value)

lemma writerows_dialect [simp]:
  "delimiter (writerows w rows) = delimiter w"
  "quotechar (writerows w rows) = quotechar w"
  "line_terminator (writerows w rows) = line_terminator w"
  by (induction rows arbitrary: w) simp_all

lemma writerows_file:
  "file (writerows w rows) =
     file w @ concat (map (\<lambda>row. join [delimiter w] (map (quote_field w) row) @ line_terminator w) rows)"
  by (induction rows arbitrary: w) (simp_all add: writerow_file)

text \<open>
  Claim C7. Writing a row appends to the sink the texts of its fields, joined by the
  delimiter, and then the line terminator; writing rows appends the lines of the rows in
  order with nothing between them (so writing \<open>rows @ rows'\<close> is writing \<open>rows\<close>, then
  \<open>rows'\<close>). With the default dialect the rows \<^verbatim>\<open>[["a","b,c"],["d\"e","f\ng"]]\<close> give
  the text \<^verbatim>\<open>a,"b,c"\n"d""e","f\ng"\n\<close>.
\<close>

theorem writerow_appends:
  "writerow w row =
     w\<lparr>file := file w @ join [delimiter w] (map (quote_field w) row) @ line_terminator w\<rparr> \<and>
   writerows w rows =
     w\<lparr>file := file w @
        concat (map (\<lambda>row. join [delimiter w] (map (quote_field w) row) @ line_terminator w) rows)\<rparr> \<and>
   writerows w (rows @ rows') = writerows (writerows w rows) rows' \<and>
   file (writerows (writer_default [])
           [[PyStr ''a'', PyStr ''b,c''], [PyStr ''d\"e'', PyStr ''f\<newline>g'']]) =
     ''a,\"b,c\"\<newline>\"d\"\"e\",\"f\<newline>g\"\<newline>''"
proof -
  have 1: "writerow w row =
     w\<lparr>file := file w @ join [delimiter w] (map (quote_field w) row) @ line_terminator w\<rparr>"
    by (simp add: writerow_def)
  have 2: "writerows w rows =
     w\<lparr>file := file w @
        concat (map (\<lambda>row. join [delimiter w] (map (quote_field w) row) @ line_terminator w) rows)\<rparr>"
    by (cases w) (use writerows_file[of w rows] writerows_dialect[of w rows] in \<open>cases "writerows w rows"; simp\<close>)
  have 3: "writerows w (rows @ rows') = writerows (writerows w rows) rows'"
    by (induction rows arbitrary: w) simp_all
  have 4: "file (writerows (writer_default [])
           [[PyStr ''a'', PyStr ''b,c''], [PyStr ''d\"e'', PyStr ''f\<newline>g'']]) =
     ''a,\"b,c\"\<newline>\"d\"\"e\",\"f\<newline>g\"\<newline>''"
    by (simp add: writerow_def quote_field_def writer_default_def writer_init_def numeral_2_eq_2)
  from 1 2 3 4 show ?thesis by blast
qed

subsection \<open>The subclass\<close>

lemma hasattr_write_row [simp]: "hasattr ''write_row''" "hasattr ''write_rows''"
  by (simp_all add: hasattr_def)




















section \<open>Writing, then reading\<close>

lemma nl_plain:
  "\<forall>c\<in>set s. c \<noteq> quotechar r \<and> c \<noteq> delimiter r \<and> c \<noteq> LF \<and> c \<noteq> CR \<Longrightarrow>
   pending r = s @ cs \<Longrightarrow>
   next_loop r acc fc False = next_loop (at r cs) acc (fc @ s) False"
proof (induction s arbitrary: r fc)
  case Nil
  then show ?case using nl_norm[of r acc fc False] by simp
next
  case (Cons c s)
  from Cons.prems have p: "pending r = c # (s @ cs)" by simp
  have "next_loop r acc fc False = next_loop (at r (s @ cs)) acc (fc @ [c]) False"
    using Cons.prems(1) by (intro nl_char[OF p]) auto
  also have "\<dots> = next_loop (at r cs) acc ((fc @ [c]) @ s) False"
    using Cons.IH[of "at r (s @ cs)" "fc @ [c]"] Cons.prems(1) by simp
  finally show ?case by simp
qed

lemma nl_quoted:
  "pending r = replace_char (quotechar r) [quotechar r, quotechar r] s @ quotechar r # cs \<Longrightarrow>
   cs = [] \<or> hd cs \<noteq> quotechar r \<Longrightarrow>
   next_loop r acc fc True = next_loop (at r cs) acc (fc @ s) False"
proof (induction s arbitrary: r fc)
  case Nil
  then show ?case by (simp add: nl_close)
next
  case (Cons c s)
  let ?rest = "replace_char (quotechar r) [quotechar r, quotechar r] s @ quotechar r # cs"
  show ?case
  proof (cases "c = quotechar r")
    case True
    with Cons.prems have p: "pending r = quotechar r # quotechar r # ?rest" by simp
    show ?thesis
      using Cons.IH[of "at r ?rest" "fc @ [quotechar r]"] Cons.prems(2)
      by (simp add: nl_escaped[OF p] True)
  next
    case False
    with Cons.prems have p: "pending r = c # ?rest" by simp
    have "next_loop r acc fc True = next_loop (at r ?rest) acc (fc @ [c]) True"
      using False by (intro nl_char[OF p]) auto
    then show ?thesis
      using Cons.IH[of "at r ?rest" "fc @ [c]"] Cons.prems(2) by simp
  qed
qed

lemma nl_field:
  assumes "delimiter w = delimiter r" and "quotechar w = quotechar r"
    and "pending r = quote_field w (PyStr s) @ cs"
    and "cs = [] \<or> hd cs \<noteq> quotechar r"
  shows "next_loop r acc fc False = next_loop (at r cs) acc (fc @ s) False"
proof (cases "delimiter w \<in> set s \<or> quotechar w \<in> set s \<or> LF \<in> set s \<or> CR \<in> set s")
  case True
  then have "quote_field w (PyStr s) =
      quotechar r # replace_char (quotechar r) [quotechar r, quotechar r] s @ [quotechar r]"
    using assms(2) by (simp add: quote_field_def Let_def numeral_2_eq_2)
  with assms(3) have p: "pending r =
      quotechar r # (replace_char (quotechar r) [quotechar r, quotechar r] s @ quotechar r # cs)"
    by simp
  have "next_loop r acc fc False =
      next_loop (at r (replace_char (quotechar r) [quotechar r, quotechar r] s @ quotechar r # cs)) acc fc True"
    by (rule nl_open[OF p])
  also have "\<dots> = next_loop (at r cs) acc (fc @ s) False"
    using nl_quoted[of "at r (replace_char (quotechar r) [quotechar r, quotechar r] s @ quotechar r # cs)" s cs acc fc]
      assms(4) by simp
  finally show ?thesis .
next
  case False
  then have "quote_field w (PyStr s) = s"
    by (simp add: quote_field_def Let_def)
  with assms(3) have p: "pending r = s @ cs" by simp
  show ?thesis
    using False assms(1,2) by (intro nl_plain[OF _ p]) auto
qed

lemma nl_fields:
  assumes "delimiter w = delimiter r" and "quotechar w = quotechar r"
    and "delimiter r \<noteq> quotechar r"
    and "row \<noteq> []"
    and "pending r = join [delimiter w] (map (quote_field w) (map PyStr row)) @ cs"
    and "cs = [] \<or> hd cs \<noteq> quotechar r"
  shows "next_loop r acc [] False = next_loop (at r cs) (acc @ butlast row) (last row) False"
  using assms
proof (induction row arbitrary: r acc)
  case Nil
  then show ?case by simp
next
  case (Cons s row)
  show ?case
  proof (cases row)
    case Nil
    with Cons.prems show ?thesis
      using nl_field[of w r s cs acc "[]"] by simp
  next
    case (Cons s' row')
    let ?tail = "join [delimiter w] (map (quote_field w) (map PyStr row)) @ cs"
    from Cons Cons.prems(5) have p: "pending r = quote_field w (PyStr s) @ (delimiter r # ?tail)"
      using Cons.prems(1) by simp
    have "next_loop r acc [] False = next_loop (at r (delimiter r # ?tail)) acc s False"
      using nl_field[OF Cons.prems(1,2) p, of acc "[]"] Cons.prems(3) by simp
    also have "\<dots> = next_loop (at r ?tail) (acc @ [s]) [] False"
      using nl_delim[of "at r (delimiter r # ?tail)" ?tail acc s] Cons.prems(3) by simp
    also have "\<dots> = next_loop (at r cs) ((acc @ [s]) @ butlast row) (last row) False"
      using Cons.IH[of "at r ?tail" "acc @ [s]"] Cons.prems Cons by simp
    finally show ?thesis using Cons by simp
  qed
qed

lemma nl_terminator:
  assumes "line_break (delimiter r) (quotechar r) t"
    and "pending r = t @ rest"
    and "t = [CR] \<Longrightarrow> rest = [] \<or> hd rest \<noteq> LF"
  shows "\<exists>r'. next_loop r acc fc False = (Some (acc @ [fc]), r') \<and> pending r' = rest \<and>
           eof r' = eof r \<and> delimiter r' = delimiter r \<and> quotechar r' = quotechar r"
proof -
  consider (lf) "t = [LF]" "delimiter r \<noteq> LF" "quotechar r \<noteq> LF"
    | (cr) "t = [CR]" "delimiter r \<noteq> CR" "quotechar r \<noteq> CR"
    | (crlf) "t = [CR, LF]" "delimiter r \<noteq> CR" "quotechar r \<noteq> CR"
    using assms(1) by (auto simp: line_break_def)
  then show ?thesis
  proof cases
    case lf
    with assms(2) have "pending r = LF # rest" by simp
    from nl_LF[OF this] lf show ?thesis by simp
  next
    case cr
    with assms(2) have "pending r = CR # rest" by simp
    from nl_CR[OF this] cr assms(3) show ?thesis
      by (cases rest) (auto simp: pending_def)
  next
    case crlf
    with assms(2) have "pending r = CR # LF # rest" by simp
    from nl_CR[OF this] crlf show ?thesis by simp
  qed
qed

lemma quote_field_hd:
  "quotechar w \<noteq> LF \<Longrightarrow> quote_field w (PyStr s) = [] \<or> hd (quote_field w (PyStr s)) \<noteq> LF"
  by (cases s) (auto simp: quote_field_def Let_def)

lemma line_hd:
  assumes "row \<noteq> []" and "delimiter w \<noteq> LF" and "quotechar w \<noteq> LF" and "t \<noteq> []" and "hd t \<noteq> LF"
  shows "hd (join [delimiter w] (map (quote_field w) (map PyStr row)) @ t @ rest) \<noteq> LF"
proof -
  obtain s row' where row: "row = s # row'" using assms(1) by (cases row) auto
  show ?thesis
  proof (cases "quote_field w (PyStr s) = []")
    case True
    then show ?thesis using assms row by (cases row') auto
  next
    case False
    then have "hd (quote_field w (PyStr s)) \<noteq> LF"
      using quote_field_hd[of w s] assms(3) by simp
    with False show ?thesis using row by (cases row') auto
  qed
qed

lemma read_rows_lines:
  assumes "delimiter w = delimiter r" and "quotechar w = quotechar r"
    and "delimiter r \<noteq> quotechar r"
    and "line_break (delimiter r) (quotechar r) (line_terminator w)"
    and "\<forall>row\<in>set rows. row \<noteq> []"
    and "\<not> eof r"
    and "pending r =
      concat (map (\<lambda>row. join [delimiter w] (map (quote_field w) row) @ line_terminator w)
        (map (map PyStr) rows))"
  shows "read_rows r = rows"
  using assms
proof (induction rows arbitrary: r)
  case Nil
  then have "next r = (None, r\<lparr>eof := True\<rparr>)"
    by (simp add: next_def nl_eof)
  then show ?case by (simp add: read_rows.simps[of r])
next
  case (Cons row rows)
  let ?t = "line_terminator w"
  let ?rest = "concat (map (\<lambda>row. join [delimiter w] (map (quote_field w) row) @ ?t)
        (map (map PyStr) rows))"
  have t: "?t \<noteq> []" "hd ?t \<noteq> quotechar r" "?t = [CR] \<Longrightarrow> delimiter r \<noteq> LF \<and> quotechar r \<noteq> LF"
    using Cons.prems(4) by (auto simp: line_break_def)
  have row: "row \<noteq> []" using Cons.prems(5) by simp
  have p: "pending r = join [delimiter w] (map (quote_field w) (map PyStr row)) @ (?t @ ?rest)"
    using Cons.prems(7) by simp
  have 1: "next_loop r [] [] False = next_loop (at r (?t @ ?rest)) ([] @ butlast row) (last row) False"
    using t by (intro nl_fields[OF Cons.prems(1,2,3) row p]) (cases ?t; simp)
  have cr: "?rest = [] \<or> hd ?rest \<noteq> LF" if "?t = [CR]"
  proof (cases rows)
    case Nil
    then show ?thesis by simp
  next
    case (Cons row2 rows2)
    with Cons.prems(5) have "row2 \<noteq> []" by simp
    from line_hd[OF this, of w ?t] t(3)[OF that] Cons.prems(1,2) that
    show ?thesis using Cons by simp
  qed
  obtain r' where 2: "next_loop (at r (?t @ ?rest)) (butlast row) (last row) False = (Some (butlast row @ [last row]), r')"
    and r': "pending r' = ?rest" "eof r' = eof r" "delimiter r' = delimiter r" "quotechar r' = quotechar r"
    using nl_terminator[of "at r (?t @ ?rest)" ?t ?rest "butlast row" "last row"] Cons.prems(4) cr
    by auto
  from 1 2 row Cons.prems(6) have "next r = (Some row, r')"
    by (simp add: next_def)
  then have "read_rows r = row # read_rows r'"
    by (simp add: read_rows.simps[of r])
  moreover have "read_rows r' = rows"
    using Cons.prems r' by (intro Cons.IH) simp_all
  ultimately show ?case by simp
qed

text \<open>
  Claim C1, as stated: for all rows and every dialect whose delimiter and quote character
  differ, the rows written are the rows read back. It fails for a row with no field
  (read back as one empty field), for a line terminator that is not a line break (the
  empty terminator joins two rows into one), for a terminator of two line breaks (one row
  written, two read: N rows read back as N+1) and for a delimiter that is the line feed
  of the terminator.
\<close>

theorem round_trip_counterexample:
  "read_rows (reader_default (file (writerows (writer_default []) [[]]))) = [['''']] \<and>
   read_rows (reader_init (file (writerows (writer_init [] (CHR '','') (CHR ''\"'') [])
     [[PyStr ''a''], [PyStr ''b'']])) (CHR '','') (CHR ''\"'')) = [[''ab'']] \<and>
   read_rows (reader_init (file (writerows (writer_init [] (CHR '','') (CHR ''\"'') [LF, LF])
     [[PyStr ''a'']])) (CHR '','') (CHR ''\"'')) = [[''a''], ['''']] \<and>
   read_rows (reader_init (file (writerows (writer_init [] LF (CHR ''\"'') [LF])
     [[PyStr ''a'', PyStr ''b'']])) LF (CHR ''\"'')) = [[''a'', ''b'', '''']]"
  by code_simp

text \<open>
  Claim C1, amended. Let every row have at least one field, the fields being arbitrary
  strings; let the delimiter \<open>d\<close> and the quote character \<open>q\<close> differ; and let the line
  terminator \<open>t\<close> be \<^verbatim>\<open>"\n"\<close> with neither \<open>d\<close> nor \<open>q\<close> a line feed, or \<^verbatim>\<open>"\r"\<close> with
  neither of them a line feed or a carriage return, or \<^verbatim>\<open>"\r\n"\<close> with neither of them
  a carriage return. Then a fresh reader over what \<^verbatim>\<open>writerows\<close> wrote to an empty sink
  yields exactly the rows written: the same number of rows, and the same fields.
\<close>

theorem round_trip:
  assumes "d \<noteq> q"
    and "t = [LF] \<and> d \<noteq> LF \<and> q \<noteq> LF \<or>
         t = [CR] \<and> d \<noteq> LF \<and> d \<noteq> CR \<and> q \<noteq> LF \<and> q \<noteq> CR \<or>
         t = [CR, LF] \<and> d \<noteq> CR \<and> q \<noteq> CR"
    and "\<forall>row\<in>set rows. row \<noteq> []"
  shows "read_rows (reader_init (file (writerows (writer_init [] d q t) (map (map PyStr) rows))) d q) = rows"
proof -
  let ?w = "writer_init [] d q t"
  let ?r = "reader_init (file (writerows ?w (map (map PyStr) rows))) d q"
  have "pending ?r =
      concat (map (\<lambda>row. join [delimiter ?w] (map (quote_field ?w) row) @ line_terminator ?w)
        (map (map PyStr) rows))"
    by (simp add: writerows_file reader_init_def pending_def writer_init_def)
  moreover have "line_break (delimiter ?r) (quotechar ?r) (line_terminator ?w)"
    using assms(2) by (simp add: line_break_def reader_init_def writer_init_def)
  ultimately show ?thesis
    using assms(1,3)
    by (intro read_rows_lines[of ?w ?r]) (simp_all add: reader_init_def writer_init_def)
qed

theorem round_trip_witness:
  "read_rows (reader_init (file (writerows (writer_init [] (CHR '','') (CHR ''\"'') [LF])
     (map (map PyStr) [[''a'', ''b,c''], [''d\"e'', ''f\<newline>g'']]))) (CHR '','') (CHR ''\"'')) =
   [[''a'', ''b,c''], [''d\"e'', ''f\<newline>g'']]"
  using round_trip[of "CHR '',''" "CHR ''\"''" "[LF]" "[[''a'', ''b,c''], [''d\"e'', ''f\<newline>g'']]"]
  by simp

section \<open>Line endings\<close>

lemma at_eq:
  fixes r r' :: reader
  shows "delimiter r = delimiter r' \<Longrightarrow> quotechar r = quotechar r' \<Longrightarrow> eof r = eof r' \<Longrightarrow>
    at r s = at r' s"
  by (cases r, cases r') simp

lemma next_loop_cong:
  fixes r r' :: reader
  assumes "pending r = pending r'" "delimiter r = delimiter r'" "quotechar r = quotechar r'" "eof r = eof r'"
  shows "next_loop r acc fc inq = next_loop r' acc fc inq"
  using nl_norm[of r acc fc inq] nl_norm[of r' acc fc inq] at_eq[OF assms(2,3,4), of "pending r"] assms(1)
  by simp

lemma read_rows_cong:
  fixes r r' :: reader
  assumes "pending r = pending r'" "delimiter r = delimiter r'" "quotechar r = quotechar r'" "eof r = eof r'"
  shows "read_rows r = read_rows r'"
proof (cases "eof r")
  case True
  with assms(4) show ?thesis
    by (simp add: read_rows.simps[of r] read_rows.simps[of r'] next_def)
next
  case False
  with assms(4) next_loop_cong[OF assms] show ?thesis
    by (simp add: read_rows.simps[of r] read_rows.simps[of r'] next_def)
qed

lemma nl_line:
  assumes q: "quotechar r \<noteq> LF" "quotechar r \<noteq> CR"
    and d: "delimiter r \<noteq> LF" "delimiter r \<noteq> CR"
    and sep: "sep = [LF] \<or> sep = [CR] \<or> sep = [CR, LF]"
    and rest: "sep = [CR] \<Longrightarrow> rest = [] \<or> hd rest \<noteq> LF"
    and l: "row_text (quotechar r) inq l"
    and p: "pending r = l @ sep @ rest"
  shows "\<exists>r'. next_loop r acc fc inq = (fst (next_loop (at r (l @ [LF])) acc fc inq), r') \<and>
           pending r' = rest \<and> eof r' = eof r \<and> delimiter r' = delimiter r \<and>
           quotechar r' = quotechar r"
proof -
  have "\<forall>l r acc fc inq. length l = n \<longrightarrow> quotechar r \<noteq> LF \<longrightarrow> quotechar r \<noteq> CR \<longrightarrow>
      delimiter r \<noteq> LF \<longrightarrow> delimiter r \<noteq> CR \<longrightarrow> row_text (quotechar r) inq l \<longrightarrow>
      pending r = l @ sep @ rest \<longrightarrow>
      (\<exists>r'. next_loop r acc fc inq = (fst (next_loop (at r (l @ [LF])) acc fc inq), r') \<and>
           pending r' = rest \<and> eof r' = eof r \<and> delimiter r' = delimiter r \<and>
           quotechar r' = quotechar r)" for n
  proof (induction n rule: less_induct)
    case (less n)
    show ?case
    proof (intro allI impI)
      fix l r acc fc inq
      assume len: "length l = n"
        and q: "quotechar r \<noteq> LF" "quotechar r \<noteq> CR"
        and d: "delimiter r \<noteq> LF" "delimiter r \<noteq> CR"
        and l: "row_text (quotechar r) inq l"
        and p: "pending r = l @ sep @ rest"
      let ?goal = "\<lambda>r l acc fc inq.
        \<exists>r'. next_loop r acc fc inq = (fst (next_loop (at r (l @ [LF])) acc fc inq), r') \<and>
           pending r' = rest \<and> eof r' = eof r \<and> delimiter r' = delimiter r \<and>
           quotechar r' = quotechar r"
      have IH: "?goal (at r (l' @ sep @ rest)) l' acc' fc' inq'"
        if "length l' < n" "row_text (quotechar r) inq' l'" for l' acc' fc' inq'
        using less[OF that(1), THEN spec, of l', THEN spec, of "at r (l' @ sep @ rest)",
            THEN spec, of acc', THEN spec, of fc', THEN spec, of inq'] that(2) q d
        by simp
      have sep_hd: "sep \<noteq> []" "hd sep \<noteq> quotechar r"
        using sep q by auto
      show "?goal r l acc fc inq"
      proof (cases l)
        case Nil
        with l have "\<not> inq" by simp
        have lb: "line_break (delimiter r) (quotechar r) sep"
          using sep q d by (auto simp: line_break_def)
        from Nil p have "pending r = sep @ rest" by simp
        from nl_terminator[OF lb this rest, of acc fc]
        show ?thesis using Nil \<open>\<not> inq\<close> q d by (simp add: nl_LF)
      next
        case (Cons c l')
        show ?thesis
        proof (cases "c = quotechar r")
          case True
          show ?thesis
          proof (cases inq)
            case False
            from l Cons True False have l': "row_text (quotechar r) True l'" by simp
            have "next_loop r acc fc False = next_loop (at r (l' @ sep @ rest)) acc fc True"
              using p Cons True by (intro nl_open) simp
            moreover have "next_loop (at r (l @ [LF])) acc fc False = next_loop (at r (l' @ [LF])) acc fc True"
              using nl_open[of "at r (l @ [LF])" "l' @ [LF]" acc fc] Cons True by simp
            ultimately show ?thesis
              using IH[OF _ l', of acc fc] len Cons False by simp
          next
            case inq: True
            from l Cons True inq have l': "row_text (quotechar r) False l'" by simp
            show ?thesis
            proof (cases "l' \<noteq> [] \<and> hd l' = quotechar r")
              case True
              then obtain l'' where l'': "l' = quotechar r # l''" by (cases l') auto
              with l' have rt: "row_text (quotechar r) True l''" by simp
              have "next_loop r acc fc True = next_loop (at r (l'' @ sep @ rest)) acc (fc @ [quotechar r]) True"
                using p Cons \<open>c = quotechar r\<close> l'' by (intro nl_escaped) simp
              moreover have "next_loop (at r (l @ [LF])) acc fc True =
                  next_loop (at r (l'' @ [LF])) acc (fc @ [quotechar r]) True"
                using nl_escaped[of "at r (l @ [LF])" "l'' @ [LF]" acc fc] Cons \<open>c = quotechar r\<close> l'' by simp
              ultimately show ?thesis
                using IH[OF _ rt, of acc "fc @ [quotechar r]"] len Cons l'' inq by simp
            next
              case False
              have "next_loop r acc fc True = next_loop (at r (l' @ sep @ rest)) acc fc False"
                using p Cons \<open>c = quotechar r\<close> False sep_hd by (intro nl_close) (cases l'; auto)+
              moreover have "next_loop (at r (l @ [LF])) acc fc True = next_loop (at r (l' @ [LF])) acc fc False"
                using nl_close[of "at r (l @ [LF])" "l' @ [LF]" acc fc] Cons \<open>c = quotechar r\<close> False q
                by (cases l') auto
              ultimately show ?thesis
                using IH[OF _ l', of acc fc] len Cons inq by simp
            qed
          qed
        next
          case nq: False
          show ?thesis
          proof (cases "c = delimiter r \<and> \<not> inq")
            case True
            with l Cons nq have l': "row_text (quotechar r) False l'" using d by simp
            have "next_loop r acc fc False = next_loop (at r (l' @ sep @ rest)) (acc @ [fc]) [] False"
              using p Cons True nq by (intro nl_delim) auto
            moreover have "next_loop (at r (l @ [LF])) acc fc False =
                next_loop (at r (l' @ [LF])) (acc @ [fc]) [] False"
              using nl_delim[of "at r (l @ [LF])" "l' @ [LF]" acc fc] Cons True nq by auto
            ultimately show ?thesis
              using IH[OF _ l', of "acc @ [fc]" "[]"] len Cons True by simp
          next
            case False
            from l Cons nq have l': "row_text (quotechar r) inq l'"
              and c: "inq \<or> (c \<noteq> LF \<and> c \<noteq> CR)"
              by (auto split: if_splits)
            with False have c': "inq \<or> (c \<noteq> delimiter r \<and> c \<noteq> LF \<and> c \<noteq> CR)" by auto
            have "next_loop r acc fc inq = next_loop (at r (l' @ sep @ rest)) acc (fc @ [c]) inq"
              using p Cons nq c' by (intro nl_char) auto
            moreover have "next_loop (at r (l @ [LF])) acc fc inq =
                next_loop (at r (l' @ [LF])) acc (fc @ [c]) inq"
              using nl_char[of "at r (l @ [LF])" c "l' @ [LF]" inq acc fc] Cons nq c' by auto
            ultimately show ?thesis
              using IH[OF _ l', of acc "fc @ [c]"] len Cons by simp
          qed
        qed
      qed
    qed
  qed
  then show ?thesis using assms by blast
qed

lemma row_text_hd: "row_text q False l \<Longrightarrow> q \<noteq> LF \<Longrightarrow> l = [] \<or> hd l \<noteq> LF"
  by (cases l) (auto split: if_splits)

lemma join_hd:
  assumes "\<forall>l\<in>set ls. row_text q False l" and "q \<noteq> LF"
  shows "join [CR] ls = [] \<or> hd (join [CR] ls) \<noteq> LF"
proof (cases ls)
  case Nil
  then show ?thesis by simp
next
  case (Cons l ls')
  with assms row_text_hd[of q l] have "l = [] \<or> hd l \<noteq> LF" by simp
  then show ?thesis using Cons by (cases ls'; cases l) auto
qed

lemma read_rows_sep:
  fixes r r' :: reader
  assumes "quotechar r \<noteq> LF" "quotechar r \<noteq> CR" "delimiter r \<noteq> LF" "delimiter r \<noteq> CR"
    and "sep = [LF] \<or> sep = [CR] \<or> sep = [CR, LF]"
    and "\<forall>l\<in>set ls. row_text (quotechar r) False l"
    and "pending r = join sep ls" and "pending r' = join [LF] ls"
    and "delimiter r' = delimiter r" "quotechar r' = quotechar r" "eof r' = eof r"
  shows "read_rows r = read_rows r'"
  using assms
proof (induction ls arbitrary: r r')
  case Nil
  then show ?case by (intro read_rows_cong) simp_all
next
  case (Cons l ls)
  show ?case
  proof (cases ls)
    case Nil
    with Cons.prems show ?thesis by (intro read_rows_cong) simp_all
  next
    case ls: (Cons l2 ls2)
    show ?thesis
    proof (cases "eof r")
      case True
      with Cons.prems(11) show ?thesis
        by (simp add: read_rows.simps[of r] read_rows.simps[of r'] next_def)
    next
      case False
      have l: "row_text (quotechar r) False l" and rest: "\<forall>l\<in>set ls. row_text (quotechar r) False l"
        using Cons.prems(6) by simp_all
      have p: "pending r = l @ sep @ join sep ls" and p': "pending r' = l @ [LF] @ join [LF] ls"
        using Cons.prems(7,8) ls by simp_all
      have hd: "join sep ls = [] \<or> hd (join sep ls) \<noteq> LF" if "sep = [CR]"
        using join_hd[OF rest Cons.prems(1)] that by simp
      obtain r1 where 1: "next_loop r [] [] False = (fst (next_loop (at r (l @ [LF])) [] [] False), r1)"
        and r1: "pending r1 = join sep ls" "eof r1 = eof r" "delimiter r1 = delimiter r"
          "quotechar r1 = quotechar r"
        using nl_line[OF Cons.prems(1,2,3,4,5) hd l p, of "[]" "[]"] by auto
      have l': "row_text (quotechar r') False l"
        using l Cons.prems(10) by simp
      obtain r1' where 2: "next_loop r' [] [] False = (fst (next_loop (at r' (l @ [LF])) [] [] False), r1')"
        and r1': "pending r1' = join [LF] ls" "eof r1' = eof r'" "delimiter r1' = delimiter r'"
          "quotechar r1' = quotechar r'"
        using nl_line[of r' "[LF]" "join [LF] ls" False l "[]" "[]"] Cons.prems(1,2,3,4,9,10) l' p'
        by auto
      have same: "at r' (l @ [LF]) = at r (l @ [LF])"
        using Cons.prems(9,10,11) by (intro at_eq) simp_all
      have "read_rows r1 = read_rows r1'"
        using Cons.prems(1,2,3,4,5,9,10,11) rest r1 r1' by (intro Cons.IH) simp_all
      then show ?thesis
        using 1 2 same False Cons.prems(11)
        by (simp add: read_rows.simps[of r] read_rows.simps[of r'] next_def split: option.splits)
    qed
  qed
qed

text \<open>
  Claim C5. Let neither the delimiter nor the quote character be a line feed or a
  carriage return (as in the default dialect), and let \<open>ls\<close> be the raw texts of rows.
  The three streams that separate them by \<^verbatim>\<open>"\r\n"\<close>, by \<^verbatim>\<open>"\r"\<close> and by \<^verbatim>\<open>"\n"\<close> parse to
  the same rows (a last empty text in \<open>ls\<close> gives the streams that end with the line
  ending). At a carriage return outside quotes the reader returns the row; of what
  follows it has consumed a line feed that comes first and nothing else.
\<close>

theorem line_endings:
  assumes "q \<noteq> LF" "q \<noteq> CR" "d \<noteq> LF" "d \<noteq> CR"
    and "\<forall>l\<in>set ls. row_text q False l"
  shows "read_rows (reader_init (join [CR, LF] ls) d q) = read_rows (reader_init (join [LF] ls) d q) \<and>
         read_rows (reader_init (join [CR] ls) d q) = read_rows (reader_init (join [LF] ls) d q) \<and>
         (pending r = CR # cs \<and> quotechar r = q \<and> delimiter r = d \<longrightarrow>
            (\<exists>r'. next_loop r row fc False = (Some (row @ [fc]), r') \<and>
                  pending r' = (if cs \<noteq> [] \<and> hd cs = LF then tl cs else cs)))"
proof -
  have 1: "read_rows (reader_init (join [CR, LF] ls) d q) = read_rows (reader_init (join [LF] ls) d q)"
    using assms by (intro read_rows_sep[of _ "[CR, LF]" ls]) (simp_all add: reader_init_def pending_def)
  have 2: "read_rows (reader_init (join [CR] ls) d q) = read_rows (reader_init (join [LF] ls) d q)"
    using assms by (intro read_rows_sep[of _ "[CR]" ls]) (simp_all add: reader_init_def pending_def)
  have 3: "\<exists>r'. next_loop r row fc False = (Some (row @ [fc]), r') \<and>
                  pending r' = (if cs \<noteq> [] \<and> hd cs = LF then tl cs else cs)"
    if "pending r = CR # cs" "quotechar r = q" "delimiter r = d"
    using nl_CR[OF that(1), of row fc] that(2,3) assms(2,4)
    by (cases cs) (auto simp: pending_def)
  from 1 2 3 show ?thesis by blast
qed

theorem line_endings_witness:
  "row_text (CHR ''\"'') False ''a,\"b\<newline>c\"'' \<and> row_text (CHR ''\"'') False ''d'' \<and>
   read_rows (reader_init (join [CR, LF] [''a,\"b\<newline>c\"'', ''d'']) (CHR '','') (CHR ''\"'')) =
     [[''a'', ''b\<newline>c''], [''d'']] \<and>
   read_rows (reader_init (join [CR] [''a,\"b\<newline>c\"'', ''d'']) (CHR '','') (CHR ''\"'')) =
     [[''a'', ''b\<newline>c''], [''d'']] \<and>
   (\<exists>r'. next_loop (reader_default (CR # ''x'')) [] ''a'' False = (Some [''a''], r') \<and>
      pending r' = ''x'')"
proof -
  have "read_rows (reader_init (join [LF] [''a,\"b\<newline>c\"'', ''d'']) (CHR '','') (CHR ''\"'')) =
     [[''a'', ''b\<newline>c''], [''d'']]"
    by code_simp
  then show ?thesis
    using line_endings[of "CHR ''\"''" "CHR '',''" "[''a,\"b\<newline>c\"'', ''d'']"
        "reader_default (CR # ''x'')" "''x''" "[]" "''a''"]
    by (simp add: reader_default_def reader_init_def pending_def)
qed

end
